theory Spec2Isabelle
  imports Main "HOL-Library.Word" "HOL-Library.Sublist" "HOL-Library.Multiset"
begin

section \<open>Total-order broadcast simulator: data model\<close>

text \<open>
  The Go sources use \<^verbatim>\<open>int64\<close> for Lamport timestamps and \<^verbatim>\<open>int\<close> for
  latencies and counters. Both are modelled as 64-bit words (the \<^verbatim>\<open>int\<close> of a 64-bit
  target): \<open>+\<close> and \<open>-\<close> wrap around as Go's do, and every comparison of the source is the
  signed one (\<open><s\<close>, \<open>\<le>s\<close>, or \<open>sint\<close> read as an integer). Node identifiers are only
  compared and used as indices, never computed with, so they range over \<open>int\<close>.
\<close>

type_synonym int64 = "64 word"

text \<open>\<^verbatim>\<open>type message struct { sender int; t int64; data string }\<close>\<close>

record message =
  sender :: int
  msg_t :: int64
  data :: string

text \<open>The timestamp of a message read as a signed integer.\<close>

abbreviation stamp :: "message \<Rightarrow> int" where
  "stamp m \<equiv> sint (msg_t m)"

text \<open>
  One line written by \<^verbatim>\<open>flush\<close> to the logger:
  \<^verbatim>\<open>"Node %d #%d receives broadcast: %s (from node %d at #%d)"\<close>, that is the
  node's id, its clock value after the increment, and the message.
\<close>

record delivery =
  at_node :: int
  at_clock :: int64
  delivered_msg :: message

text \<open>
  The fields of \<^verbatim>\<open>node\<close> that \<^verbatim>\<open>receive\<close>, \<^verbatim>\<open>queue\<close>, \<^verbatim>\<open>synchronized\<close>
  and \<^verbatim>\<open>flush\<close> read or write; \<open>participants\<close> is \<^verbatim>\<open>n.pool.participants\<close>,
  \<open>node_t\<close> is the Lamport clock \<^verbatim>\<open>n.t\<close>, \<open>logged\<close> the delivery lines written to
  \<^verbatim>\<open>n.l\<close> so far. The two \<^verbatim>\<open>list.List\<close> buffers are lists, front first.
\<close>

record node =
  participants :: int
  node_id :: int
  primaryBuffer :: "message list"
  secondaryBuffer :: "message list"
  tWait :: int64
  node_t :: int64
  logged :: "delivery list"

definition newNode :: "int \<Rightarrow> int \<Rightarrow> node" where
  "newNode pool_participants i =
     \<lparr>participants = pool_participants, node_id = i, primaryBuffer = [],
      secondaryBuffer = [], tWait = 0, node_t = 0, logged = []\<rparr>"

section \<open>The logical clock\<close>

text \<open>The body of the ticking goroutine's loop: \<^verbatim>\<open>n.t++\<close>.\<close>

definition tick :: "node \<Rightarrow> node" where
  "tick n = n\<lparr>node_t := node_t n + 1\<rparr>"

text \<open>
  The first block of \<^verbatim>\<open>receive\<close>:
  \<^verbatim>\<open>if m.t > n.t { n.t = m.t }; n.t++\<close>.
\<close>

definition sync_clock :: "int64 \<Rightarrow> int64 \<Rightarrow> int64" where
  "sync_clock v remote = (if v <s remote then remote else v) + 1"

section \<open>The delivery buffer\<close>

text \<open>
  The scan of \<^verbatim>\<open>queue\<close>: \<open>mark\<close> walks from the front and stops at the first element
  with \<^verbatim>\<open>m.t < mark.t\<close>; the message is inserted before it, or pushed at the back when
  the scan runs off the list.
\<close>

fun insert_at_mark :: "message \<Rightarrow> message list \<Rightarrow> message list" where
  "insert_at_mark m [] = [m]"
| "insert_at_mark m (mark # rest) =
     (if msg_t m <s msg_t mark then m # mark # rest
      else mark # insert_at_mark m rest)"

definition queue :: "node \<Rightarrow> message \<Rightarrow> node" where
  "queue n m =
     (if length (primaryBuffer n) > 0 then
        (if msg_t m <s tWait n
         then n\<lparr>primaryBuffer := insert_at_mark m (primaryBuffer n)\<rparr>
         else n\<lparr>secondaryBuffer := insert_at_mark m (secondaryBuffer n)\<rparr>)
      else n\<lparr>tWait := msg_t m, primaryBuffer := insert_at_mark m (primaryBuffer n)\<rparr>)"

text \<open>
  \<^verbatim>\<open>synchronized\<close> fills a map from sender to \<^verbatim>\<open>true\<close> over the secondary buffer and
  compares its number of keys with the pool's participant count.
\<close>

definition mentioned :: "message list \<Rightarrow> (int \<rightharpoonup> bool)" where
  "mentioned ms = fold (\<lambda>m nodes. nodes(sender m \<mapsto> True)) ms Map.empty"

definition synchronized :: "node \<Rightarrow> bool" where
  "synchronized n = (int (card (dom (mentioned (secondaryBuffer n)))) = participants n)"

text \<open>
  The first loop of \<^verbatim>\<open>flush\<close> removes the front of the primary buffer until it is
  empty, incrementing the clock and logging one line for each message.
\<close>

fun flush_primary :: "int \<Rightarrow> message list \<Rightarrow> int64 \<Rightarrow> delivery list \<Rightarrow> int64 \<times> delivery list" where
  "flush_primary i [] clk out = (clk, out)"
| "flush_primary i (m # ms) clk out =
     flush_primary i ms (clk + 1)
       (out @ [\<lparr>at_node = i, at_clock = clk + 1, delivered_msg = m\<rparr>])"

text \<open>
  The second loop removes the front of the secondary buffer until it is empty, raising
  \<^verbatim>\<open>tWait\<close> to the message's timestamp when that is larger, and pushing the message
  at the back of the primary buffer.
\<close>

fun flush_secondary :: "message list \<Rightarrow> int64 \<Rightarrow> message list \<Rightarrow> int64 \<times> message list" where
  "flush_secondary [] tw prim = (tw, prim)"
| "flush_secondary (m # ms) tw prim =
     flush_secondary ms (if tw <s msg_t m then msg_t m else tw) (prim @ [m])"

definition flush :: "node \<Rightarrow> node" where
  "flush n =
     (case flush_primary (node_id n) (primaryBuffer n) (node_t n) (logged n) of
        (clk, out) \<Rightarrow>
          (case flush_secondary (secondaryBuffer n) (tWait n) [] of
             (tw, prim) \<Rightarrow>
               n\<lparr>primaryBuffer := prim, secondaryBuffer := [], tWait := tw,
                 node_t := clk, logged := out\<rparr>))"

definition receive :: "node \<Rightarrow> message \<Rightarrow> node" where
  "receive n m =
     (let n1 = n\<lparr>node_t := sync_clock (node_t n) (msg_t m)\<rparr>;
          n2 = queue n1 m
      in if synchronized n2 then flush n2 else n2)"

text \<open>
  What can happen to one node's clock and buffers: a tick of its clock goroutine, a call
  of \<^verbatim>\<open>queue\<close>, a call of \<^verbatim>\<open>flush\<close>, and a whole \<^verbatim>\<open>receive\<close>, the only caller
  of the two in the program. Each holds the node's locks for its updates, and one
  goroutine per node calls \<^verbatim>\<open>receive\<close>, so a node's history is a list of such events;
  histories with bare \<open>Queue\<close> and \<open>Flush\<close> events include every state the program can
  reach and more.
\<close>

datatype event = Tick | Queue message | Flush | Receive message

fun step :: "node \<Rightarrow> event \<Rightarrow> node" where
  "step n Tick = tick n"
| "step n (Queue m) = queue n m"
| "step n Flush = flush n"
| "step n (Receive m) = receive n m"

definition run :: "node \<Rightarrow> event list \<Rightarrow> node" where
  "run n es = foldl step n es"

text \<open>The messages handed to \<^verbatim>\<open>queue\<close> during a history, in arrival order.\<close>

fun arrivals :: "event list \<Rightarrow> message list" where
  "arrivals [] = []"
| "arrivals (Queue m # es) = m # arrivals es"
| "arrivals (Receive m # es) = m # arrivals es"
| "arrivals (e # es) = arrivals es"

section \<open>Invariants of the delivery buffer\<close>

text \<open>
  What every history keeps true of the two buffers and the wait value: both buffers
  ascend by timestamp, the primary buffer lies at or below \<^verbatim>\<open>tWait\<close> with its last
  message exactly there, the secondary buffer lies at or above it, and the secondary
  buffer is empty whenever the primary one is.
\<close>

definition wave_inv :: "node \<Rightarrow> bool" where
  "wave_inv n \<longleftrightarrow>
     sorted (map stamp (primaryBuffer n)) \<and>
     sorted (map stamp (secondaryBuffer n)) \<and>
     (\<forall>x \<in> set (primaryBuffer n). msg_t x \<le>s tWait n) \<and>
     (\<forall>x \<in> set (secondaryBuffer n). tWait n \<le>s msg_t x) \<and>
     (primaryBuffer n \<noteq> [] \<longrightarrow> msg_t (last (primaryBuffer n)) = tWait n) \<and>
     (primaryBuffer n = [] \<longrightarrow> secondaryBuffer n = [])"

text \<open>
  Messages with the same timestamp stand in the buffers in the order they arrived, the
  primary buffer's before the secondary buffer's.
\<close>

definition arrival_order_inv :: "node \<Rightarrow> message list \<Rightarrow> bool" where
  "arrival_order_inv n arrived \<longleftrightarrow>
     (\<forall>k. subseq (filter (\<lambda>x. msg_t x = k) (primaryBuffer n) @
                   filter (\<lambda>x. msg_t x = k) (secondaryBuffer n)) arrived)"

text \<open>
  The insertion position in the words of the specification, for comparison with the
  scan above: "linear scan to first element not smaller", that is before the first
  element whose timestamp is not smaller than the message's.
\<close>

definition spec_insert_first_not_smaller :: "message \<Rightarrow> message list \<Rightarrow> message list" where
  "spec_insert_first_not_smaller m ms =
     takeWhile (\<lambda>x. msg_t x <s msg_t m) ms @ m # dropWhile (\<lambda>x. msg_t x <s msg_t m) ms"

section \<open>The dispatcher: latency of one broadcast leg\<close>

text \<open>Go's run-time panics that the modelled code can raise.\<close>

datatype panic = IndexOutOfRange | RandIntNonPositive | MakeNegativeLen

text \<open>Indexing a slice with a Go \<^verbatim>\<open>int\<close>: out of range is a run-time panic.\<close>

definition index :: "'a list \<Rightarrow> int \<Rightarrow> panic + 'a" where
  "index xs i = (if 0 \<le> i \<and> i < int (length xs) then Inr (xs ! nat i) else Inl IndexOutOfRange)"

text \<open>
  \<^verbatim>\<open>rand.Int(rand.Reader, max)\<close> of Go's standard library, by its documented contract:
  it panics if \<^verbatim>\<open>max <= 0\<close> and otherwise returns a value in \<open>[0, max)\<close>. The bytes read
  from the entropy source are a parameter, a natural number, reduced into the interval;
  every value of the interval is the result for some entropy. Its distribution is not
  modelled.
\<close>

definition rand_Int :: "nat \<Rightarrow> int \<Rightarrow> panic + int" where
  "rand_Int entropy mx = (if mx \<le> 0 then Inl RandIntNonPositive else Inr (int entropy mod mx))"

text \<open>
  The body of the goroutine that \<^verbatim>\<open>broadcaster\<close> starts for destination \<open>i\<close>, up to
  the value it sleeps for (in milliseconds):
  \<^verbatim>\<open>r, _ := rand.Int(rand.Reader, big.NewInt(int64(lmax - lmin)))\<close>,
  \<^verbatim>\<open>latency := int64(networkJam[m.sender][i]) + int64(lmin) + r.Int64()\<close>.
  The subtraction and the additions are Go's wrapping ones.
\<close>

definition leg_latency ::
    "int64 list list \<Rightarrow> message \<Rightarrow> int \<Rightarrow> int64 \<Rightarrow> int64 \<Rightarrow> nat \<Rightarrow> panic + int64" where
  "leg_latency networkJam m i lmin lmax entropy =
     (case rand_Int entropy (sint (lmax - lmin)) of
        Inl p \<Rightarrow> Inl p
      | Inr r \<Rightarrow>
          (case index networkJam (sender m) of
             Inl p \<Rightarrow> Inl p
           | Inr row \<Rightarrow>
               (case index row i of
                  Inl p \<Rightarrow> Inl p
                | Inr jam \<Rightarrow> Inr (jam + lmin + word_of_int r))))"

text \<open>
  \<^verbatim>\<open>broadcaster\<close> starts one such goroutine for every index of \<^verbatim>\<open>nodes\<close>; each draws
  on its own. The result lists, per destination, the latency or the panic.
\<close>

definition broadcaster ::
    "int64 list list \<Rightarrow> nat \<Rightarrow> message \<Rightarrow> int64 \<Rightarrow> int64 \<Rightarrow> (nat \<Rightarrow> nat) \<Rightarrow> (panic + int64) list" where
  "broadcaster networkJam nodeCount m lmin lmax entropy =
     map (\<lambda>i. leg_latency networkJam m (int i) lmin lmax (entropy i)) [0..<nodeCount]"

text \<open>
  The matrix of \<^verbatim>\<open>main\<close>: \<^verbatim>\<open>nodeCount\<close> rows of \<^verbatim>\<open>nodeCount\<close> zeros, and the
  \<^verbatim>\<open>jam\<close> command's assignment \<^verbatim>\<open>networkJam[source][target] = latency\<close>.
\<close>

definition newNetworkJam :: "nat \<Rightarrow> int64 list list" where
  "newNetworkJam nodeCount = replicate nodeCount (replicate nodeCount 0)"

definition setJam :: "int64 list list \<Rightarrow> int \<Rightarrow> int \<Rightarrow> int64 \<Rightarrow> panic + int64 list list" where
  "setJam networkJam source target latency =
     (case index networkJam source of
        Inl p \<Rightarrow> Inl p
      | Inr row \<Rightarrow>
          (case index row target of
             Inl p \<Rightarrow> Inl p
           | Inr _ \<Rightarrow> Inr (networkJam[nat source := row[nat target := latency]])))"

section \<open>The bare causal-delivery variant\<close>

text \<open>
  \<^verbatim>\<open>type message struct { sender int; sequence int; data string }\<close> and the fields of
  its \<^verbatim>\<open>node\<close> that \<^verbatim>\<open>receive\<close> touches; \<open>causal_logged\<close> lists the messages of the
  "receives broadcast" lines written so far.
\<close>

record causal_message =
  causal_sender :: int
  sequence :: int64
  causal_data :: string

record causal_node =
  delivered :: "int64 list"
  buffer :: "causal_message list"
  causal_logged :: "causal_message list"

text \<open>\<^verbatim>\<open>n.delivered = make([]int, pool.participants)\<close>; \<^verbatim>\<open>n.buffer = list.New()\<close>.\<close>

definition causal_newNode :: "int \<Rightarrow> panic + causal_node" where
  "causal_newNode pool_participants =
     (if pool_participants < 0 then Inl MakeNegativeLen
      else Inr \<lparr>delivered = replicate (nat pool_participants) 0, buffer = [], causal_logged = []\<rparr>)"

text \<open>
  The inner \<^verbatim>\<open>for e := n.buffer.Front(); e != nil; e = e.Next()\<close>: the first element
  with \<^verbatim>\<open>deliver.sequence == n.delivered[deliver.sender]\<close> is removed and returned with
  the rest of the buffer. The index expression is evaluated for every element the scan
  passes, and panics when the sender is no index of \<^verbatim>\<open>delivered\<close>.
\<close>

fun find_deliverable ::
    "int64 list \<Rightarrow> causal_message list \<Rightarrow> panic + (causal_message \<times> causal_message list) option" where
  "find_deliverable dl [] = Inr None"
| "find_deliverable dl (e # es) =
     (case index dl (causal_sender e) of
        Inl p \<Rightarrow> Inl p
      | Inr d \<Rightarrow>
          if sequence e = d then Inr (Some (e, es))
          else (case find_deliverable dl es of
                  Inl p \<Rightarrow> Inl p
                | Inr None \<Rightarrow> Inr None
                | Inr (Some (deliver, rest)) \<Rightarrow> Inr (Some (deliver, e # rest))))"

lemma find_deliverable_shorter:
  "find_deliverable dl es = Inr (Some (deliver, rest)) \<Longrightarrow> length rest < length es"
  by (induction es arbitrary: rest) (auto split: sum.splits option.splits if_splits)

text \<open>
  The outer \<^verbatim>\<open>for\<close> of \<^verbatim>\<open>receive\<close>: while the scan finds a message, increment
  \<^verbatim>\<open>n.delivered[deliver.sender]\<close> and log it. Every round shortens the buffer.
\<close>

function deliver_loop :: "causal_node \<Rightarrow> panic + causal_node" where
  "deliver_loop n =
     (case find_deliverable (delivered n) (buffer n) of
        Inl p \<Rightarrow> Inl p
      | Inr None \<Rightarrow> Inr n
      | Inr (Some (deliver, rest)) \<Rightarrow>
          deliver_loop
            (n\<lparr>delivered := (delivered n)
                   [nat (causal_sender deliver) := delivered n ! nat (causal_sender deliver) + 1],
               buffer := rest,
               causal_logged := causal_logged n @ [deliver]\<rparr>))"
  by pat_completeness auto
termination
  by (relation "measure (\<lambda>n. length (buffer n))") (auto dest: find_deliverable_shorter)

definition causal_receive :: "causal_node \<Rightarrow> causal_message \<Rightarrow> panic + causal_node" where
  "causal_receive n m = deliver_loop (n\<lparr>buffer := buffer n @ [m]\<rparr>)"

text \<open>A node's history in this variant: the messages its receive loop was handed.\<close>

fun causal_run :: "causal_node \<Rightarrow> causal_message list \<Rightarrow> panic + causal_node" where
  "causal_run n [] = Inr n"
| "causal_run n (m # ms) =
     (case causal_receive n m of Inl p \<Rightarrow> Inl p | Inr n' \<Rightarrow> causal_run n' ms)"

section \<open>Facts about the clock and the two loops of flush\<close>

lemma sint_add_of_nat:
  fixes w :: int64
  assumes "sint w + int k < 2^63"
  shows "sint (w + of_nat k) = sint w + int k"
proof -
  have lb: "- (2^63) \<le> sint w" using sint_ge [of w] by simp
  have "w + of_nat k = word_of_int (sint w + int k)"
    by simp
  then have "sint (w + of_nat k) = signed_take_bit 63 (sint w + int k)"
    by (simp only: sint_sbintrunc') simp
  also have "\<dots> = sint w + int k"
    by (rule signed_take_bit_int_eq_self) (use assms lb in simp_all)
  finally show ?thesis .
qed

lemma sint_succ: "sint w < 2^63 - 1 \<Longrightarrow> sint (w + 1) = sint w + 1" for w :: int64
  using sint_add_of_nat [of w 1] by simp

lemma flush_primary_eq:
  "flush_primary i ms clk out =
     (clk + of_nat (length ms),
      out @ map (\<lambda>k. \<lparr>at_node = i, at_clock = clk + of_nat (Suc k), delivered_msg = ms ! k\<rparr>)
              [0..<length ms])"
proof (induction ms arbitrary: clk out)
  case Nil
  then show ?case by simp
next
  case (Cons m ms)
  have upt: "[0..<length (m # ms)] = 0 # map Suc [0..<length ms]"
    by (simp add: upt_conv_Cons map_Suc_upt del: upt_Suc)
  show ?case
    unfolding upt by (simp add: Cons.IH comp_def add.assoc add.commute)
qed

lemma flush_secondary_snd: "snd (flush_secondary ms tw prim) = prim @ ms"
  by (induction ms arbitrary: tw prim) auto

lemma flush_secondary_fst:
  "sint (fst (flush_secondary ms tw prim)) = fold max (map (\<lambda>m. sint (msg_t m)) ms) (sint tw)"
  by (induction ms arbitrary: tw prim) (auto simp: word_sless_alt max_def)

lemma fold_max_Max: "fold max xs (x::int) = Max (insert x (set xs))"
proof -
  have "Max (set (x # xs)) = fold max xs x" by (rule Max.set_eq_fold)
  then show ?thesis by simp
qed

lemma node_t_queue: "node_t (queue n m) = node_t n"
  by (simp add: queue_def)

lemma node_t_flush: "node_t (flush n) = node_t n + of_nat (length (primaryBuffer n))"
  by (simp add: flush_def flush_primary_eq split: prod.splits)

lemma length_insert_at_mark: "length (insert_at_mark m ms) = Suc (length ms)"
  by (induction ms) auto

lemma length_primary_queue: "length (primaryBuffer (queue n m)) \<le> Suc (length (primaryBuffer n))"
  by (simp add: queue_def length_insert_at_mark)

lemma synchronized_clock: "synchronized (n\<lparr>node_t := c\<rparr>) = synchronized n"
  by (simp add: synchronized_def)

lemma queue_clock: "queue (n\<lparr>node_t := c\<rparr>) m = (queue n m)\<lparr>node_t := c\<rparr>"
  by (simp add: queue_def)

lemma node_t_receive:
  "node_t (receive n m) =
     sync_clock (node_t n) (msg_t m) +
       (if synchronized (queue n m) then of_nat (length (primaryBuffer (queue n m))) else 0)"
  by (simp add: receive_def Let_def node_t_flush queue_clock synchronized_clock)

section \<open>The Lamport receive rule\<close>

text \<open>
  Claim C7, as amended. The clock update of \<^verbatim>\<open>receive\<close> is the larger of the local
  clock and the remote timestamp, plus one, in 64-bit arithmetic: when that larger value
  is below the largest \<^verbatim>\<open>int64\<close>, the new clock is \<open>max v t + 1\<close> as an integer and
  strictly greater than both the message's timestamp and the old clock. The whole
  \<^verbatim>\<open>receive\<close> leaves the clock at that value plus the number of messages it flushed,
  which is still strictly greater than the message's timestamp when these increments
  do not overflow either.
\<close>

theorem receive_clock_lamport:
  "(max (sint (node_t n)) (sint (msg_t m)) < 2^63 - 1 \<longrightarrow>
      sint (sync_clock (node_t n) (msg_t m)) = max (sint (node_t n)) (sint (msg_t m)) + 1 \<and>
      msg_t m <s sync_clock (node_t n) (msg_t m) \<and> node_t n <s sync_clock (node_t n) (msg_t m)) \<and>
   node_t (receive n m) =
      sync_clock (node_t n) (msg_t m) +
        (if synchronized (queue n m) then of_nat (length (primaryBuffer (queue n m))) else 0) \<and>
   (max (sint (node_t n)) (sint (msg_t m)) + int (length (primaryBuffer n)) + 2 < 2^63 \<longrightarrow>
      msg_t m <s node_t (receive n m) \<and> node_t n <s node_t (receive n m))"
proof (intro conjI impI)
  assume a: "max (sint (node_t n)) (sint (msg_t m)) < 2^63 - 1"
  then show s: "sint (sync_clock (node_t n) (msg_t m)) = max (sint (node_t n)) (sint (msg_t m)) + 1"
    by (auto simp: sync_clock_def sint_succ word_sless_alt max_def)
  then show "msg_t m <s sync_clock (node_t n) (msg_t m)" "node_t n <s sync_clock (node_t n) (msg_t m)"
    by (simp_all add: word_sless_alt)
next
  show "node_t (receive n m) =
      sync_clock (node_t n) (msg_t m) +
        (if synchronized (queue n m) then of_nat (length (primaryBuffer (queue n m))) else 0)"
    by (rule node_t_receive)
next
  assume b: "max (sint (node_t n)) (sint (msg_t m)) + int (length (primaryBuffer n)) + 2 < 2^63"
  let ?k = "if synchronized (queue n m) then length (primaryBuffer (queue n m)) else 0"
  have k: "int ?k \<le> int (length (primaryBuffer n)) + 1"
    using length_primary_queue [of n m] by simp
  have a: "max (sint (node_t n)) (sint (msg_t m)) < 2^63 - 1" using b by linarith
  have s: "sint (sync_clock (node_t n) (msg_t m)) = max (sint (node_t n)) (sint (msg_t m)) + 1"
    using a by (auto simp: sync_clock_def sint_succ word_sless_alt max_def)
  have r: "node_t (receive n m) = sync_clock (node_t n) (msg_t m) + of_nat ?k"
    by (simp add: node_t_receive)
  have "sint (node_t (receive n m)) = sint (sync_clock (node_t n) (msg_t m)) + int ?k"
    unfolding r by (rule sint_add_of_nat) (use s k b in linarith)
  then show "msg_t m <s node_t (receive n m)" "node_t n <s node_t (receive n m)"
    using s by (simp_all add: word_sless_alt)
qed

text \<open>
  Claim C7 as stated ("for every local clock value and remote timestamp") fails at the
  largest timestamp: a fresh node receiving a message stamped \<open>2^63 - 1\<close> wraps its clock
  to \<open>- 2^63\<close>, which is not greater than the message's timestamp.
\<close>

theorem receive_clock_overflow:
  "\<not> (msg_t \<lparr>sender = 0, msg_t = 0x7FFFFFFFFFFFFFFF, data = ''A''\<rparr>
        <s node_t (receive (newNode 3 1) \<lparr>sender = 0, msg_t = 0x7FFFFFFFFFFFFFFF, data = ''A''\<rparr>))"
  by (simp add: receive_def newNode_def sync_clock_def queue_def synchronized_def mentioned_def
      word_sless_alt)

theorem receive_clock_lamport_witness:
  "max (sint (node_t (newNode 3 1))) (sint (msg_t \<lparr>sender = 0, msg_t = 5, data = ''A''\<rparr>))
     + int (length (primaryBuffer (newNode 3 1))) + 2 < 2^63 \<and>
   sint (sync_clock (node_t (newNode 3 1)) (msg_t \<lparr>sender = 0, msg_t = 5, data = ''A''\<rparr>)) = 6 \<and>
   msg_t \<lparr>sender = 0, msg_t = 5, data = ''A''\<rparr>
     <s node_t (receive (newNode 3 1) \<lparr>sender = 0, msg_t = 5, data = ''A''\<rparr>)"
proof -
  have h: "max (sint (node_t (newNode 3 1))) (sint (msg_t \<lparr>sender = 0, msg_t = 5, data = ''A''\<rparr>))
     + int (length (primaryBuffer (newNode 3 1))) + 2 < 2^63"
    by (simp add: newNode_def)
  have h': "max (sint (node_t (newNode 3 1))) (sint (msg_t \<lparr>sender = 0, msg_t = 5, data = ''A''\<rparr>)) = 5"
    by (simp add: newNode_def)
  note T = receive_clock_lamport [of "newNode 3 1" "\<lparr>sender = 0, msg_t = 5, data = ''A''\<rparr>"]
  from T h have c3: "msg_t \<lparr>sender = 0, msg_t = 5, data = ''A''\<rparr>
     <s node_t (receive (newNode 3 1) \<lparr>sender = 0, msg_t = 5, data = ''A''\<rparr>)"
    by blast
  from T h' have c2: "sint (sync_clock (node_t (newNode 3 1)) (msg_t \<lparr>sender = 0, msg_t = 5, data = ''A''\<rparr>)) = 6"
    by simp
  from h c2 c3 show ?thesis by blast
qed

section \<open>Insertion and the synchronization test\<close>

lemma dom_fold_mentioned:
  "dom (fold (\<lambda>m nodes. nodes(sender m \<mapsto> True)) ms M) = dom M \<union> sender ` set ms"
  by (induction ms arbitrary: M) auto

lemma dom_mentioned: "dom (mentioned ms) = sender ` set ms"
  by (simp add: mentioned_def dom_fold_mentioned)

lemma set_insert_at_mark: "set (insert_at_mark m ms) = insert m (set ms)"
  by (induction ms) auto

lemma insert_at_mark_position:
  "insert_at_mark m ms =
     takeWhile (\<lambda>x. msg_t x \<le>s msg_t m) ms @ m # dropWhile (\<lambda>x. msg_t x \<le>s msg_t m) ms"
  by (induction ms) (auto simp: word_sless_alt word_sle_eq)

text \<open>
  Claim C3. For every node state, \<^verbatim>\<open>synchronized\<close> is true exactly when the number of
  distinct senders of the messages in the secondary buffer equals the pool's participant
  count. Queueing a message whose sender already has a message in the secondary buffer
  leaves the result as it was; in particular it never turns false into true.
\<close>

theorem synchronized_iff_all_senders:
  "(synchronized n \<longleftrightarrow> int (card (sender ` set (secondaryBuffer n))) = participants n) \<and>
   (sender m \<in> sender ` set (secondaryBuffer n) \<longrightarrow>
      synchronized (queue n m) = synchronized n) \<and>
   (sender m \<in> sender ` set (secondaryBuffer n) \<and> \<not> synchronized n \<longrightarrow>
      \<not> synchronized (queue n m))"
proof -
  have a: "synchronized k \<longleftrightarrow> int (card (sender ` set (secondaryBuffer k))) = participants k" for k
    by (simp add: synchronized_def dom_mentioned)
  have b: "synchronized (queue n m) = synchronized n"
    if "sender m \<in> sender ` set (secondaryBuffer n)"
  proof -
    have "insert (sender m) (sender ` set (secondaryBuffer n)) = sender ` set (secondaryBuffer n)"
      using that by auto
    then show ?thesis
      by (simp add: a queue_def set_insert_at_mark)
  qed
  from a b show ?thesis by blast
qed

theorem synchronized_iff_all_senders_witness:
  "sender \<lparr>sender = 1, msg_t = 7, data = ''D''\<rparr>
     \<in> sender ` set (secondaryBuffer
          (run (newNode 3 1) [Queue \<lparr>sender = 0, msg_t = 5, data = ''A''\<rparr>,
                              Queue \<lparr>sender = 1, msg_t = 5, data = ''B''\<rparr>])) \<and>
   \<not> synchronized (run (newNode 3 1) [Queue \<lparr>sender = 0, msg_t = 5, data = ''A''\<rparr>,
                              Queue \<lparr>sender = 1, msg_t = 5, data = ''B''\<rparr>]) \<and>
   \<not> synchronized (queue (run (newNode 3 1) [Queue \<lparr>sender = 0, msg_t = 5, data = ''A''\<rparr>,
                              Queue \<lparr>sender = 1, msg_t = 5, data = ''B''\<rparr>])
                      \<lparr>sender = 1, msg_t = 7, data = ''D''\<rparr>)"
proof -
  let ?n = "run (newNode 3 1) [Queue \<lparr>sender = 0, msg_t = 5, data = ''A''\<rparr>,
                              Queue \<lparr>sender = 1, msg_t = 5, data = ''B''\<rparr>]"
  let ?m = "\<lparr>sender = 1, msg_t = 7, data = ''D''\<rparr>"
  have sec: "secondaryBuffer ?n = [\<lparr>sender = 1, msg_t = 5, data = ''B''\<rparr>]"
    by (simp add: run_def newNode_def queue_def)
  have p: "participants ?n = 3"
    by (simp add: run_def newNode_def queue_def)
  have h1: "sender ?m \<in> sender ` set (secondaryBuffer ?n)"
    by (simp add: sec)
  have h2: "\<not> synchronized ?n"
    using synchronized_iff_all_senders [of ?n ?m] by (simp add: sec p)
  from synchronized_iff_all_senders [of ?n ?m] h1 h2
  have "\<not> synchronized (queue ?n ?m)" by blast
  with h1 h2 show ?thesis by blast
qed

text \<open>
  Claim C4, as amended. With a non-empty primary buffer, \<^verbatim>\<open>queue\<close> puts a message whose
  timestamp is at or above \<^verbatim>\<open>tWait\<close> into the secondary buffer and an older one into
  the primary buffer, and changes nothing else; with an empty primary buffer it sets
  \<^verbatim>\<open>tWait\<close> to the message's timestamp and makes the message the primary buffer's only
  element. The message goes behind every leading element whose timestamp is not
  greater than its own, that is before the first element strictly greater.
\<close>

theorem queue_target_and_position:
  "(primaryBuffer n \<noteq> [] \<and> tWait n \<le>s msg_t m \<longrightarrow>
      queue n m = n\<lparr>secondaryBuffer :=
        takeWhile (\<lambda>x. msg_t x \<le>s msg_t m) (secondaryBuffer n) @ m #
        dropWhile (\<lambda>x. msg_t x \<le>s msg_t m) (secondaryBuffer n)\<rparr>) \<and>
   (primaryBuffer n \<noteq> [] \<and> msg_t m <s tWait n \<longrightarrow>
      queue n m = n\<lparr>primaryBuffer :=
        takeWhile (\<lambda>x. msg_t x \<le>s msg_t m) (primaryBuffer n) @ m #
        dropWhile (\<lambda>x. msg_t x \<le>s msg_t m) (primaryBuffer n)\<rparr>) \<and>
   (primaryBuffer n = [] \<longrightarrow> queue n m = n\<lparr>tWait := msg_t m, primaryBuffer := [m]\<rparr>)"
  by (auto simp: queue_def insert_at_mark_position word_sless_alt word_sle_eq)

text \<open>
  Claim C4 as stated puts the message before the first element "not smaller". With
  \<open>B\<close> at timestamp 5 in the secondary buffer, \<open>C\<close> at timestamp 5 is queued behind
  \<open>B\<close>, not before it.
\<close>

theorem queue_position_not_first_not_smaller:
  "secondaryBuffer
     (queue (run (newNode 3 1) [Queue \<lparr>sender = 0, msg_t = 5, data = ''A''\<rparr>,
                                Queue \<lparr>sender = 1, msg_t = 5, data = ''B''\<rparr>])
            \<lparr>sender = 2, msg_t = 5, data = ''C''\<rparr>)
   \<noteq> spec_insert_first_not_smaller \<lparr>sender = 2, msg_t = 5, data = ''C''\<rparr>
       (secondaryBuffer (run (newNode 3 1) [Queue \<lparr>sender = 0, msg_t = 5, data = ''A''\<rparr>,
                                Queue \<lparr>sender = 1, msg_t = 5, data = ''B''\<rparr>]))"
  by (simp add: run_def newNode_def queue_def spec_insert_first_not_smaller_def)

theorem queue_target_and_position_witness:
  "primaryBuffer (run (newNode 3 1) [Queue \<lparr>sender = 0, msg_t = 5, data = ''A''\<rparr>,
                                Queue \<lparr>sender = 1, msg_t = 5, data = ''B''\<rparr>]) \<noteq> [] \<and>
   tWait (run (newNode 3 1) [Queue \<lparr>sender = 0, msg_t = 5, data = ''A''\<rparr>,
                                Queue \<lparr>sender = 1, msg_t = 5, data = ''B''\<rparr>])
     \<le>s msg_t \<lparr>sender = 2, msg_t = 5, data = ''C''\<rparr> \<and>
   secondaryBuffer
     (queue (run (newNode 3 1) [Queue \<lparr>sender = 0, msg_t = 5, data = ''A''\<rparr>,
                                Queue \<lparr>sender = 1, msg_t = 5, data = ''B''\<rparr>])
            \<lparr>sender = 2, msg_t = 5, data = ''C''\<rparr>)
     = [\<lparr>sender = 1, msg_t = 5, data = ''B''\<rparr>, \<lparr>sender = 2, msg_t = 5, data = ''C''\<rparr>]"
proof -
  let ?n = "run (newNode 3 1) [Queue \<lparr>sender = 0, msg_t = 5, data = ''A''\<rparr>,
                              Queue \<lparr>sender = 1, msg_t = 5, data = ''B''\<rparr>]"
  let ?m = "\<lparr>sender = 2, msg_t = 5, data = ''C''\<rparr>"
  have n: "?n = \<lparr>participants = 3, node_id = 1,
                 primaryBuffer = [\<lparr>sender = 0, msg_t = 5, data = ''A''\<rparr>],
                 secondaryBuffer = [\<lparr>sender = 1, msg_t = 5, data = ''B''\<rparr>],
                 tWait = 5, node_t = 0, logged = []\<rparr>"
    by (simp add: run_def newNode_def queue_def)
  have h: "primaryBuffer ?n \<noteq> [] \<and> tWait ?n \<le>s msg_t ?m"
    by (simp add: n)
  with queue_target_and_position [of ?n ?m]
  have "queue ?n ?m = ?n\<lparr>secondaryBuffer :=
        takeWhile (\<lambda>x. msg_t x \<le>s msg_t ?m) (secondaryBuffer ?n) @ ?m #
        dropWhile (\<lambda>x. msg_t x \<le>s msg_t ?m) (secondaryBuffer ?n)\<rparr>"
    by blast
  then have "secondaryBuffer (queue ?n ?m) =
        takeWhile (\<lambda>x. msg_t x \<le>s msg_t ?m) (secondaryBuffer ?n) @ ?m #
        dropWhile (\<lambda>x. msg_t x \<le>s msg_t ?m) (secondaryBuffer ?n)"
    by simp
  also have "\<dots> = [\<lparr>sender = 1, msg_t = 5, data = ''B''\<rparr>, ?m]"
    by (simp add: n)
  finally show ?thesis using h by blast
qed

section \<open>The buffer invariants hold along every history\<close>

lemma sorted_insert_at_mark:
  "sorted (map stamp ms) \<Longrightarrow> sorted (map stamp (insert_at_mark m ms))"
  by (induction ms) (auto simp: set_insert_at_mark word_sless_alt)

lemma insert_at_mark_not_Nil: "insert_at_mark m ms \<noteq> []"
  by (cases ms) auto

lemma last_insert_at_mark:
  "ms \<noteq> [] \<Longrightarrow> msg_t m <s msg_t (last ms) \<Longrightarrow> last (insert_at_mark m ms) = last ms"
  by (induction ms) (auto simp: insert_at_mark_not_Nil split: if_splits)

lemma flush_buffers:
  "primaryBuffer (flush n) = secondaryBuffer n" "secondaryBuffer (flush n) = []"
  using flush_secondary_snd [of "secondaryBuffer n" "tWait n" "[]"]
  by (auto simp: flush_def split: prod.splits)

lemma tWait_flush:
  "sint (tWait (flush n)) = Max (insert (sint (tWait n)) (stamp ` set (secondaryBuffer n)))"
  using flush_secondary_fst [of "secondaryBuffer n" "tWait n" "[]"]
  by (auto simp: flush_def fold_max_Max split: prod.splits)

lemma sorted_last_Max:
  "sorted (xs :: int list) \<Longrightarrow> xs \<noteq> [] \<Longrightarrow> Max (set xs) = last xs"
  by (induction xs) (auto simp: max_def)

lemma wave_inv_newNode: "wave_inv (newNode p i)"
  by (simp add: wave_inv_def newNode_def)

lemma wave_inv_tick: "wave_inv n \<Longrightarrow> wave_inv (tick n)"
  by (simp add: wave_inv_def tick_def)

lemma wave_inv_clock: "wave_inv (n\<lparr>node_t := c\<rparr>) = wave_inv n"
  by (simp add: wave_inv_def)

lemma wave_inv_queue:
  assumes "wave_inv n"
  shows "wave_inv (queue n m)"
proof (cases "primaryBuffer n = []")
  case True
  with assms show ?thesis by (simp add: wave_inv_def queue_def)
next
  case False
  show ?thesis
  proof (cases "msg_t m <s tWait n")
    case True
    with False assms show ?thesis
      by (auto simp: wave_inv_def queue_def sorted_insert_at_mark set_insert_at_mark
          last_insert_at_mark insert_at_mark_not_Nil word_sless_alt word_sle_eq)
  next
    case False
    with \<open>primaryBuffer n \<noteq> []\<close> assms show ?thesis
      by (auto simp: wave_inv_def queue_def sorted_insert_at_mark set_insert_at_mark
          word_sless_alt word_sle_eq)
  qed
qed

lemma tWait_flush_last:
  assumes "wave_inv n" "secondaryBuffer n \<noteq> []"
  shows "tWait (flush n) = msg_t (last (secondaryBuffer n))"
proof -
  let ?S = "map stamp (secondaryBuffer n)"
  have s: "sorted ?S" "?S \<noteq> []" using assms by (simp_all add: wave_inv_def)
  have mx: "Max (set ?S) = last ?S" using s by (rule sorted_last_Max)
  have "last (secondaryBuffer n) \<in> set (secondaryBuffer n)" using assms(2) by simp
  then have "sint (tWait n) \<le> stamp (last (secondaryBuffer n))"
    using assms(1) by (auto simp: wave_inv_def word_sle_eq)
  then have "sint (tWait n) \<le> Max (set ?S)"
    using mx assms(2) by (simp add: last_map)
  then have "Max (insert (sint (tWait n)) (set ?S)) = Max (set ?S)"
    using s(2) by (simp add: max_def)
  then have "sint (tWait (flush n)) = stamp (last (secondaryBuffer n))"
    using mx assms(2) by (simp add: tWait_flush last_map)
  then show ?thesis by (rule signed_word_eqI)
qed

lemma wave_inv_flush:
  assumes "wave_inv n"
  shows "wave_inv (flush n)"
proof (cases "secondaryBuffer n = []")
  case True
  then show ?thesis by (simp add: wave_inv_def flush_buffers)
next
  case False
  have "sint (tWait (flush n)) = Max (insert (sint (tWait n)) (stamp ` set (secondaryBuffer n)))"
    by (rule tWait_flush)
  then have "\<forall>x \<in> set (secondaryBuffer n). stamp x \<le> sint (tWait (flush n))"
    by simp
  with assms False show ?thesis
    by (simp add: wave_inv_def flush_buffers tWait_flush_last word_sle_eq)
qed

lemma wave_inv_receive: "wave_inv n \<Longrightarrow> wave_inv (receive n m)"
  by (simp add: receive_def Let_def wave_inv_flush wave_inv_queue wave_inv_clock)

lemma wave_inv_step: "wave_inv n \<Longrightarrow> wave_inv (step n e)"
  by (cases e) (simp_all add: wave_inv_tick wave_inv_queue wave_inv_flush wave_inv_receive)

lemma run_snoc: "run n (es @ [e]) = step (run n es) e"
  by (simp add: run_def)

lemma run_append: "run n (es @ es') = run (run n es) es'"
  by (simp add: run_def)

lemma wave_inv_run: "wave_inv n \<Longrightarrow> wave_inv (run n es)"
  by (induction es rule: rev_induct) (simp_all add: run_snoc wave_inv_step, simp add: run_def)

lemma subseq_append_right: "subseq (xs @ ys) zs \<Longrightarrow> subseq ys zs"
  by (auto dest!: list_emb_appendD intro: subseq_drop_many)

lemma subseq_append_left: "subseq (xs @ ys) zs \<Longrightarrow> subseq xs zs"
  by (auto dest!: list_emb_appendD intro: subseq_rev_drop_many)

lemma arrivals_append: "arrivals (es @ es') = arrivals es @ arrivals es'"
  by (induction es rule: arrivals.induct) auto

lemma filter_insert_at_mark_other:
  "msg_t m \<noteq> k \<Longrightarrow>
     filter (\<lambda>x. msg_t x = k) (insert_at_mark m ms) = filter (\<lambda>x. msg_t x = k) ms"
  by (induction ms) auto

lemma filter_insert_at_mark_same:
  "sorted (map stamp ms) \<Longrightarrow>
     filter (\<lambda>x. msg_t x = msg_t m) (insert_at_mark m ms) =
     filter (\<lambda>x. msg_t x = msg_t m) ms @ [m]"
proof (induction ms)
  case Nil
  then show ?case by simp
next
  case (Cons a ms)
  show ?case
  proof (cases "msg_t m <s msg_t a")
    case True
    have "\<forall>x \<in> set (a # ms). msg_t x \<noteq> msg_t m"
      using Cons.prems True by (auto simp: word_sless_alt)
    then have "filter (\<lambda>x. msg_t x = msg_t m) (a # ms) = []"
      by (simp only: filter_empty_conv)
    with True show ?thesis by simp
  next
    case False
    with Cons show ?thesis by simp
  qed
qed

lemma arrival_order_inv_queue:
  assumes w: "wave_inv n" and a: "arrival_order_inv n arrived"
  shows "arrival_order_inv (queue n m) (arrived @ [m])"
  unfolding arrival_order_inv_def
proof
  fix k
  let ?F = "filter (\<lambda>x. msg_t x = k)"
  have old: "subseq (?F (primaryBuffer n) @ ?F (secondaryBuffer n)) arrived"
    using a by (simp add: arrival_order_inv_def)
  show "subseq (?F (primaryBuffer (queue n m)) @ ?F (secondaryBuffer (queue n m))) (arrived @ [m])"
  proof (cases "msg_t m = k")
    case False
    then have "?F (primaryBuffer (queue n m)) = ?F (primaryBuffer n)"
      "?F (secondaryBuffer (queue n m)) = ?F (secondaryBuffer n)"
      by (auto simp: queue_def filter_insert_at_mark_other)
    with old show ?thesis by (simp add: subseq_rev_drop_many)
  next
    case k: True
    show ?thesis
    proof (cases "primaryBuffer n = []")
      case True
      with w have "secondaryBuffer n = []" by (simp add: wave_inv_def)
      with True k show ?thesis by (simp add: queue_def subseq_singleton_left)
    next
      case ne: False
      show ?thesis
      proof (cases "msg_t m <s tWait n")
        case True
        have "\<forall>x \<in> set (secondaryBuffer n). msg_t x \<noteq> k"
          using w True k by (auto simp: wave_inv_def word_sless_alt word_sle_eq)
        then have s: "?F (secondaryBuffer n) = []"
          by (simp only: filter_empty_conv)
        have "sorted (map stamp (primaryBuffer n))" using w by (simp add: wave_inv_def)
        then have p: "?F (insert_at_mark m (primaryBuffer n)) = ?F (primaryBuffer n) @ [m]"
          using k filter_insert_at_mark_same [of "primaryBuffer n" m] by simp
        from old s have "subseq (?F (primaryBuffer n) @ [m]) (arrived @ [m])"
          by (simp add: list_emb_append_mono)
        with ne True s p show ?thesis by (simp add: queue_def)
      next
        case False
        have "sorted (map stamp (secondaryBuffer n))" using w by (simp add: wave_inv_def)
        then have p: "?F (insert_at_mark m (secondaryBuffer n)) = ?F (secondaryBuffer n) @ [m]"
          using k filter_insert_at_mark_same [of "secondaryBuffer n" m] by simp
        from old have "subseq ((?F (primaryBuffer n) @ ?F (secondaryBuffer n)) @ [m]) (arrived @ [m])"
          by (intro list_emb_append_mono) simp_all
        with ne False p show ?thesis by (simp add: queue_def)
      qed
    qed
  qed
qed

lemma arrival_order_inv_flush:
  assumes "arrival_order_inv n arrived"
  shows "arrival_order_inv (flush n) arrived"
  unfolding arrival_order_inv_def
proof
  fix k
  have "subseq (filter (\<lambda>x. msg_t x = k) (primaryBuffer n) @
                filter (\<lambda>x. msg_t x = k) (secondaryBuffer n)) arrived"
    using assms by (simp add: arrival_order_inv_def)
  then have "subseq (filter (\<lambda>x. msg_t x = k) (secondaryBuffer n)) arrived"
    by (rule subseq_append_right)
  then show "subseq (filter (\<lambda>x. msg_t x = k) (primaryBuffer (flush n)) @
                filter (\<lambda>x. msg_t x = k) (secondaryBuffer (flush n))) arrived"
    by (simp add: flush_buffers)
qed

lemma arrival_order_inv_clock: "arrival_order_inv (n\<lparr>node_t := c\<rparr>) arrived = arrival_order_inv n arrived"
  by (simp add: arrival_order_inv_def)

lemma arrival_order_inv_step:
  assumes "wave_inv n" "arrival_order_inv n arrived"
  shows "arrival_order_inv (step n e) (arrived @ arrivals [e])"
proof (cases e)
  case Tick
  with assms show ?thesis by (simp add: tick_def arrival_order_inv_def)
next
  case (Queue m)
  with assms show ?thesis by (simp add: arrival_order_inv_queue)
next
  case Flush
  with assms show ?thesis by (simp add: arrival_order_inv_flush)
next
  case (Receive m)
  let ?n1 = "n\<lparr>node_t := sync_clock (node_t n) (msg_t m)\<rparr>"
  have "arrival_order_inv (queue ?n1 m) (arrived @ [m])"
    using assms by (intro arrival_order_inv_queue) (simp_all add: wave_inv_clock arrival_order_inv_clock)
  with Receive show ?thesis
    by (simp add: receive_def Let_def arrival_order_inv_flush)
qed

lemma arrival_order_inv_run:
  "arrival_order_inv (run (newNode p i) es) (arrivals es)"
proof (induction es rule: rev_induct)
  case Nil
  show ?case by (simp add: run_def newNode_def arrival_order_inv_def)
next
  case (snoc e es)
  have "wave_inv (run (newNode p i) es)"
    by (simp add: wave_inv_run wave_inv_newNode)
  with snoc show ?case
    by (simp add: run_snoc arrivals_append arrival_order_inv_step)
qed

lemma ties_in_arrival_order:
  "subseq (filter (\<lambda>x. msg_t x = k) (primaryBuffer (run (newNode p i) es))) (arrivals es)"
proof -
  have "subseq (filter (\<lambda>x. msg_t x = k) (primaryBuffer (run (newNode p i) es)) @
                filter (\<lambda>x. msg_t x = k) (secondaryBuffer (run (newNode p i) es))) (arrivals es)"
    using arrival_order_inv_run [of p i es] by (simp add: arrival_order_inv_def)
  then show ?thesis
    by (rule subseq_append_left)
qed

section \<open>Ordering, the wait value and flush\<close>

lemma run_Cons: "run n (e # es) = run (step n e) es"
  by (simp add: run_def)

lemma tWait_kept_by_inserts:
  "primaryBuffer n \<noteq> [] \<Longrightarrow> \<forall>e \<in> set es. e = Tick \<or> (\<exists>x. e = Queue x) \<Longrightarrow>
     tWait (run n es) = tWait n \<and> primaryBuffer (run n es) \<noteq> []"
proof (induction es arbitrary: n)
  case Nil
  then show ?case by (simp add: run_def)
next
  case (Cons e es)
  from Cons.prems have "e = Tick \<or> (\<exists>x. e = Queue x)" by simp
  then have "tWait (step n e) = tWait n \<and> primaryBuffer (step n e) \<noteq> []"
    using Cons.prems(1) by (auto simp: tick_def queue_def insert_at_mark_not_Nil split: if_splits)
  with Cons.IH [of "step n e"] Cons.prems(2) show ?case
    by (simp add: run_Cons)
qed

text \<open>
  Claim C6. After every history of a node that started with empty buffers, whether it
  consists of calls of \<^verbatim>\<open>queue\<close> only or also of flushes, whole receives and clock
  ticks, the primary and the secondary buffer are both sorted ascending by timestamp.
\<close>

theorem buffers_sorted:
  "sorted (map stamp (primaryBuffer (run (newNode p i) es))) \<and>
   sorted (map stamp (secondaryBuffer (run (newNode p i) es)))"
  using wave_inv_run [OF wave_inv_newNode, of p i es] by (simp add: wave_inv_def)

text \<open>
  Claim C5, as amended. In every reachable state each message of the primary buffer has
  a timestamp at or below \<^verbatim>\<open>tWait\<close>, the last one exactly \<^verbatim>\<open>tWait\<close>, and each message
  of the secondary buffer has a timestamp at or above it. A message queued into an empty
  primary buffer sets \<^verbatim>\<open>tWait\<close> to its timestamp, and \<^verbatim>\<open>tWait\<close> keeps that value
  through the following calls of \<^verbatim>\<open>queue\<close> and clock ticks, until a flush. What a flush
  does to \<^verbatim>\<open>tWait\<close> is part of claim C2.
\<close>

theorem wait_threshold_invariant:
  "(\<forall>x \<in> set (primaryBuffer (run (newNode p i) es)). msg_t x \<le>s tWait (run (newNode p i) es)) \<and>
   (primaryBuffer (run (newNode p i) es) \<noteq> [] \<longrightarrow>
      msg_t (last (primaryBuffer (run (newNode p i) es))) = tWait (run (newNode p i) es)) \<and>
   (\<forall>x \<in> set (secondaryBuffer (run (newNode p i) es)). tWait (run (newNode p i) es) \<le>s msg_t x) \<and>
   (primaryBuffer (run (newNode p i) es) = [] \<and> (\<forall>e \<in> set es'. e = Tick \<or> (\<exists>x. e = Queue x)) \<longrightarrow>
      tWait (run (newNode p i) (es @ Queue m # es')) = msg_t m)"
proof -
  let ?n = "run (newNode p i) es"
  have w: "wave_inv ?n" by (simp add: wave_inv_run wave_inv_newNode)
  have seed: "tWait (run (newNode p i) (es @ Queue m # es')) = msg_t m"
    if e: "primaryBuffer ?n = []" and q: "\<forall>e \<in> set es'. e = Tick \<or> (\<exists>x. e = Queue x)"
  proof -
    have "primaryBuffer (queue ?n m) \<noteq> []" "tWait (queue ?n m) = msg_t m"
      using e by (simp_all add: queue_def)
    with tWait_kept_by_inserts [of "queue ?n m" es'] q
    have "tWait (run (queue ?n m) es') = msg_t m" by simp
    then show ?thesis by (simp add: run_append run_Cons)
  qed
  from w seed show ?thesis unfolding wave_inv_def by blast
qed

text \<open>
  Claim C5 as stated fails twice. After one message \<open>A\<close> at timestamp 5 the primary
  buffer holds \<open>A\<close> and \<^verbatim>\<open>tWait\<close> is 5, so \<open>A\<close> is not below the threshold. And after
  \<open>A\<close>, \<open>B\<close>, \<open>C\<close> and a flush, \<^verbatim>\<open>tWait\<close> is 6, not the timestamp 5 of \<open>A\<close>, the
  message that was admitted into the empty primary buffer.
\<close>

theorem wait_threshold_not_strict:
  "\<lparr>sender = 0, msg_t = 5, data = ''A''\<rparr>
      \<in> set (primaryBuffer (run (newNode 3 1) [Queue \<lparr>sender = 0, msg_t = 5, data = ''A''\<rparr>])) \<and>
   \<not> (msg_t \<lparr>sender = 0, msg_t = 5, data = ''A''\<rparr>
        <s tWait (run (newNode 3 1) [Queue \<lparr>sender = 0, msg_t = 5, data = ''A''\<rparr>])) \<and>
   primaryBuffer (run (newNode 3 1) []) = [] \<and>
   tWait (run (newNode 3 1)
           [Queue \<lparr>sender = 0, msg_t = 5, data = ''A''\<rparr>,
            Queue \<lparr>sender = 1, msg_t = 5, data = ''B''\<rparr>,
            Queue \<lparr>sender = 2, msg_t = 6, data = ''C''\<rparr>, Flush])
     \<noteq> msg_t \<lparr>sender = 0, msg_t = 5, data = ''A''\<rparr>"
  by (simp add: run_def newNode_def queue_def flush_def)

theorem wait_threshold_invariant_witness:
  "primaryBuffer (run (newNode 3 1) []) = [] \<and>
   tWait (run (newNode 3 1)
           ([] @ Queue \<lparr>sender = 0, msg_t = 5, data = ''A''\<rparr> #
            [Queue \<lparr>sender = 1, msg_t = 5, data = ''B''\<rparr>, Tick,
             Queue \<lparr>sender = 2, msg_t = 6, data = ''C''\<rparr>])) = 5 \<and>
   primaryBuffer (run (newNode 3 1)
           [Queue \<lparr>sender = 0, msg_t = 5, data = ''A''\<rparr>,
            Queue \<lparr>sender = 1, msg_t = 5, data = ''B''\<rparr>,
            Queue \<lparr>sender = 2, msg_t = 6, data = ''C''\<rparr>, Flush]) \<noteq> [] \<and>
   msg_t (last (primaryBuffer (run (newNode 3 1)
           [Queue \<lparr>sender = 0, msg_t = 5, data = ''A''\<rparr>,
            Queue \<lparr>sender = 1, msg_t = 5, data = ''B''\<rparr>,
            Queue \<lparr>sender = 2, msg_t = 6, data = ''C''\<rparr>, Flush]))) = 6"
proof -
  let ?A = "\<lparr>sender = 0, msg_t = 5, data = ''A''\<rparr>"
  let ?B = "\<lparr>sender = 1, msg_t = 5, data = ''B''\<rparr>"
  let ?C = "\<lparr>sender = 2, msg_t = 6, data = ''C''\<rparr>"
  have e: "primaryBuffer (run (newNode 3 1) []) = []"
    by (simp add: run_def newNode_def)
  have q: "\<forall>e \<in> set [Queue ?B, Tick, Queue ?C]. e = Tick \<or> (\<exists>x. e = Queue x)"
    by simp
  from wait_threshold_invariant [of 3 1 "[]" "[Queue ?B, Tick, Queue ?C]" ?A] e q
  have t: "tWait (run (newNode 3 1) ([] @ Queue ?A # [Queue ?B, Tick, Queue ?C])) = 5"
    by simp
  have ne: "primaryBuffer (run (newNode 3 1) [Queue ?A, Queue ?B, Queue ?C, Flush]) \<noteq> []"
    by (simp add: run_def newNode_def queue_def flush_def)
  have tw: "tWait (run (newNode 3 1) [Queue ?A, Queue ?B, Queue ?C, Flush]) = 6"
    by (simp add: run_def newNode_def queue_def flush_def)
  from wait_threshold_invariant [of 3 1 "[Queue ?A, Queue ?B, Queue ?C, Flush]"] ne
  have "msg_t (last (primaryBuffer (run (newNode 3 1) [Queue ?A, Queue ?B, Queue ?C, Flush])))
        = tWait (run (newNode 3 1) [Queue ?A, Queue ?B, Queue ?C, Flush])"
    by blast
  with e t ne tw show ?thesis by simp
qed

text \<open>
  Claim C2. For every node state, \<^verbatim>\<open>flush\<close> logs exactly the messages of the primary
  buffer, each once and in the buffer's order, the \<open>k\<close>-th (from 0) with the clock value
  \<open>t + k + 1\<close>, and leaves the clock incremented once per message; afterwards the
  primary buffer is the former secondary buffer in the same order, the secondary buffer
  is empty, and \<^verbatim>\<open>tWait\<close> is the largest of its old value and the timestamps of the
  moved messages. In every state a history can reach, the primary buffer, hence the
  emission, ascends by timestamp with equal timestamps in arrival order, the moved
  messages ascend too, and when at least one message is moved the new \<^verbatim>\<open>tWait\<close> is
  the maximum timestamp among the moved messages.
\<close>

theorem flush_completeness:
  "logged (flush n) =
     logged n @ map (\<lambda>k. \<lparr>at_node = node_id n, at_clock = node_t n + of_nat (Suc k),
                          delivered_msg = primaryBuffer n ! k\<rparr>) [0..<length (primaryBuffer n)] \<and>
   map delivered_msg (drop (length (logged n)) (logged (flush n))) = primaryBuffer n \<and>
   node_t (flush n) = node_t n + of_nat (length (primaryBuffer n)) \<and>
   primaryBuffer (flush n) = secondaryBuffer n \<and>
   secondaryBuffer (flush n) = [] \<and>
   sint (tWait (flush n)) = Max (insert (sint (tWait n)) (stamp ` set (secondaryBuffer n))) \<and>
   (n = run (newNode p i) es \<longrightarrow>
      sorted (map stamp (primaryBuffer n)) \<and>
      sorted (map stamp (secondaryBuffer n)) \<and>
      (\<forall>k. subseq (filter (\<lambda>x. msg_t x = k) (primaryBuffer n)) (arrivals es)) \<and>
      (secondaryBuffer n \<noteq> [] \<longrightarrow>
         sint (tWait (flush n)) = Max (stamp ` set (secondaryBuffer n))))"
proof -
  have l: "logged (flush n) =
     logged n @ map (\<lambda>k. \<lparr>at_node = node_id n, at_clock = node_t n + of_nat (Suc k),
                          delivered_msg = primaryBuffer n ! k\<rparr>) [0..<length (primaryBuffer n)]"
    by (simp add: flush_def flush_primary_eq split: prod.splits)
  have m: "map delivered_msg (drop (length (logged n)) (logged (flush n))) = primaryBuffer n"
    unfolding l by (simp add: comp_def map_nth)
  have r: "sorted (map stamp (primaryBuffer n)) \<and>
      sorted (map stamp (secondaryBuffer n)) \<and>
      (\<forall>k. subseq (filter (\<lambda>x. msg_t x = k) (primaryBuffer n)) (arrivals es)) \<and>
      (secondaryBuffer n \<noteq> [] \<longrightarrow>
         sint (tWait (flush n)) = Max (stamp ` set (secondaryBuffer n)))"
    if n: "n = run (newNode p i) es"
  proof -
    have w: "wave_inv n" unfolding n by (simp add: wave_inv_run wave_inv_newNode)
    have t: "sint (tWait (flush n)) = Max (stamp ` set (secondaryBuffer n))"
      if ne: "secondaryBuffer n \<noteq> []"
    proof -
      have "Max (set (map stamp (secondaryBuffer n))) = last (map stamp (secondaryBuffer n))"
        using w ne by (intro sorted_last_Max) (simp_all add: wave_inv_def)
      then show ?thesis
        using ne by (simp add: tWait_flush_last [OF w ne] last_map)
    qed
    from w t show ?thesis
      unfolding n by (simp add: wave_inv_def ties_in_arrival_order)
  qed
  from l m r show ?thesis
    by (simp add: node_t_flush flush_buffers tWait_flush)
qed

theorem flush_completeness_witness:
  "secondaryBuffer (run (newNode 3 1)
      [Queue \<lparr>sender = 0, msg_t = 5, data = ''A''\<rparr>,
       Queue \<lparr>sender = 1, msg_t = 5, data = ''B''\<rparr>,
       Queue \<lparr>sender = 2, msg_t = 6, data = ''C''\<rparr>]) \<noteq> [] \<and>
   sint (tWait (flush (run (newNode 3 1)
      [Queue \<lparr>sender = 0, msg_t = 5, data = ''A''\<rparr>,
       Queue \<lparr>sender = 1, msg_t = 5, data = ''B''\<rparr>,
       Queue \<lparr>sender = 2, msg_t = 6, data = ''C''\<rparr>]))) = 6 \<and>
   logged (flush (run (newNode 3 1)
      [Queue \<lparr>sender = 0, msg_t = 5, data = ''A''\<rparr>,
       Queue \<lparr>sender = 1, msg_t = 5, data = ''B''\<rparr>,
       Queue \<lparr>sender = 2, msg_t = 6, data = ''C''\<rparr>])) =
     [\<lparr>at_node = 1, at_clock = 1, delivered_msg = \<lparr>sender = 0, msg_t = 5, data = ''A''\<rparr>\<rparr>]"
proof -
  let ?es = "[Queue \<lparr>sender = 0, msg_t = 5, data = ''A''\<rparr>,
       Queue \<lparr>sender = 1, msg_t = 5, data = ''B''\<rparr>,
       Queue \<lparr>sender = 2, msg_t = 6, data = ''C''\<rparr>]"
  let ?n = "run (newNode 3 1) ?es"
  have n: "?n = \<lparr>participants = 3, node_id = 1,
                 primaryBuffer = [\<lparr>sender = 0, msg_t = 5, data = ''A''\<rparr>],
                 secondaryBuffer = [\<lparr>sender = 1, msg_t = 5, data = ''B''\<rparr>,
                                    \<lparr>sender = 2, msg_t = 6, data = ''C''\<rparr>],
                 tWait = 5, node_t = 0, logged = []\<rparr>"
    by (simp add: run_def newNode_def queue_def)
  have ne: "secondaryBuffer ?n \<noteq> []" by (simp add: n)
  note T = flush_completeness [of ?n 3 1 ?es]
  from T ne have "sint (tWait (flush ?n)) = Max (stamp ` set (secondaryBuffer ?n))"
    by blast
  also have "\<dots> = 6" by (simp add: n)
  finally have t: "sint (tWait (flush ?n)) = 6" .
  from T have "logged (flush ?n) =
     logged ?n @ map (\<lambda>k. \<lparr>at_node = node_id ?n, at_clock = node_t ?n + of_nat (Suc k),
                          delivered_msg = primaryBuffer ?n ! k\<rparr>) [0..<length (primaryBuffer ?n)]"
    by blast
  also have "\<dots> = [\<lparr>at_node = 1, at_clock = 1, delivered_msg = \<lparr>sender = 0, msg_t = 5, data = ''A''\<rparr>\<rparr>]"
    by (simp add: n)
  finally have l: "logged (flush ?n) =
      [\<lparr>at_node = 1, at_clock = 1, delivered_msg = \<lparr>sender = 0, msg_t = 5, data = ''A''\<rparr>\<rparr>]" .
  from ne t l show ?thesis by blast
qed

section \<open>The three-sender scenario\<close>

lemma three_orders:
  assumes "mset ms = {#a, b, c#}"
  shows "ms \<in> {[a, b, c], [a, c, b], [b, a, c], [b, c, a], [c, a, b], [c, b, a]}"
proof -
  have "size (mset ms) = 3" unfolding assms by simp
  then have "length ms = 3" by simp
  then obtain x y z where ms: "ms = [x, y, z]"
    by (auto simp: numeral_3_eq_3 length_Suc_conv)
  from assms show ?thesis unfolding ms
    by (auto simp: add_eq_conv_ex)
qed

text \<open>
  Claim C1, as amended. A fresh node 1 of a 3-node pool, with any clock value, receives
  \<open>A\<close> (sender 0, timestamp 5), \<open>B\<close> (sender 1, timestamp 5) and \<open>C\<close> (sender 2,
  timestamp 6) in any arrival order. The first arrival goes to the empty primary buffer,
  so the secondary buffer never holds a message of its sender: after the three receives
  \<^verbatim>\<open>synchronized\<close> is false, no flush was triggered, nothing was emitted, and the three
  messages are all still buffered.
\<close>

theorem scenario_three_senders:
  assumes "mset ms = {#\<lparr>sender = 0, msg_t = 5, data = ''A''\<rparr>,
                      \<lparr>sender = 1, msg_t = 5, data = ''B''\<rparr>,
                      \<lparr>sender = 2, msg_t = 6, data = ''C''\<rparr>#}"
  shows "logged (run ((newNode 3 1)\<lparr>node_t := c\<rparr>) (map Receive ms)) = [] \<and>
         \<not> synchronized (run ((newNode 3 1)\<lparr>node_t := c\<rparr>) (map Receive ms)) \<and>
         sender (hd ms) \<notin> sender ` set (secondaryBuffer (run ((newNode 3 1)\<lparr>node_t := c\<rparr>) (map Receive ms))) \<and>
         hd ms \<in> set (primaryBuffer (run ((newNode 3 1)\<lparr>node_t := c\<rparr>) (map Receive ms))) \<and>
         mset (primaryBuffer (run ((newNode 3 1)\<lparr>node_t := c\<rparr>) (map Receive ms)) @
               secondaryBuffer (run ((newNode 3 1)\<lparr>node_t := c\<rparr>) (map Receive ms))) = mset ms"
proof -
  let ?A = "\<lparr>sender = 0, msg_t = 5, data = ''A''\<rparr>"
  let ?B = "\<lparr>sender = 1, msg_t = 5, data = ''B''\<rparr>"
  let ?C = "\<lparr>sender = 2, msg_t = 6, data = ''C''\<rparr>"
  note defs = run_def receive_def Let_def newNode_def queue_def synchronized_def mentioned_def
  from three_orders [OF assms]
  consider "ms = [?A, ?B, ?C]" | "ms = [?A, ?C, ?B]" | "ms = [?B, ?A, ?C]"
    | "ms = [?B, ?C, ?A]" | "ms = [?C, ?A, ?B]" | "ms = [?C, ?B, ?A]"
    by auto
  then show ?thesis
  proof cases
    case 1 then show ?thesis by (simp add: defs)
  next
    case 2 then show ?thesis by (simp add: defs)
  next
    case 3 then show ?thesis by (simp add: defs)
  next
    case 4 then show ?thesis by (simp add: defs)
  next
    case 5 then show ?thesis by (simp add: defs)
  next
    case 6 then show ?thesis by (simp add: defs)
  qed
qed

text \<open>
  Claim C1 as stated fails for the arrival order \<open>A\<close>, \<open>B\<close>, \<open>C\<close>: after the three
  inserts the secondary buffer holds senders 1 and 2 only, \<^verbatim>\<open>synchronized\<close> is false,
  and the three receives emit nothing.
\<close>

theorem scenario_not_synchronized:
  "sender ` set (secondaryBuffer (run (newNode 3 1)
      [Queue \<lparr>sender = 0, msg_t = 5, data = ''A''\<rparr>,
       Queue \<lparr>sender = 1, msg_t = 5, data = ''B''\<rparr>,
       Queue \<lparr>sender = 2, msg_t = 6, data = ''C''\<rparr>])) = {1, 2} \<and>
   \<not> synchronized (run (newNode 3 1)
      [Queue \<lparr>sender = 0, msg_t = 5, data = ''A''\<rparr>,
       Queue \<lparr>sender = 1, msg_t = 5, data = ''B''\<rparr>,
       Queue \<lparr>sender = 2, msg_t = 6, data = ''C''\<rparr>]) \<and>
   logged (run (newNode 3 1)
      [Receive \<lparr>sender = 0, msg_t = 5, data = ''A''\<rparr>,
       Receive \<lparr>sender = 1, msg_t = 5, data = ''B''\<rparr>,
       Receive \<lparr>sender = 2, msg_t = 6, data = ''C''\<rparr>]) = []"
  by (simp add: run_def receive_def Let_def newNode_def queue_def synchronized_def mentioned_def)

theorem scenario_three_senders_witness:
  "mset [\<lparr>sender = 2, msg_t = 6, data = ''C''\<rparr>,
         \<lparr>sender = 0, msg_t = 5, data = ''A''\<rparr>,
         \<lparr>sender = 1, msg_t = 5, data = ''B''\<rparr>]
     = {#\<lparr>sender = 0, msg_t = 5, data = ''A''\<rparr>,
         \<lparr>sender = 1, msg_t = 5, data = ''B''\<rparr>,
         \<lparr>sender = 2, msg_t = 6, data = ''C''\<rparr>#} \<and>
   logged (run ((newNode 3 1)\<lparr>node_t := 4\<rparr>)
      (map Receive [\<lparr>sender = 2, msg_t = 6, data = ''C''\<rparr>,
                    \<lparr>sender = 0, msg_t = 5, data = ''A''\<rparr>,
                    \<lparr>sender = 1, msg_t = 5, data = ''B''\<rparr>])) = [] \<and>
   \<not> synchronized (run ((newNode 3 1)\<lparr>node_t := 4\<rparr>)
      (map Receive [\<lparr>sender = 2, msg_t = 6, data = ''C''\<rparr>,
                    \<lparr>sender = 0, msg_t = 5, data = ''A''\<rparr>,
                    \<lparr>sender = 1, msg_t = 5, data = ''B''\<rparr>]))"
proof -
  let ?ms = "[\<lparr>sender = 2, msg_t = 6, data = ''C''\<rparr>,
         \<lparr>sender = 0, msg_t = 5, data = ''A''\<rparr>,
         \<lparr>sender = 1, msg_t = 5, data = ''B''\<rparr>]"
  have h: "mset ?ms = {#\<lparr>sender = 0, msg_t = 5, data = ''A''\<rparr>,
         \<lparr>sender = 1, msg_t = 5, data = ''B''\<rparr>,
         \<lparr>sender = 2, msg_t = 6, data = ''C''\<rparr>#}"
    by simp
  from scenario_three_senders [OF h, of 4] h show ?thesis by blast
qed

end
